theory Spec2Isabelle
  imports Main "HOL-Library.Multiset"
begin

section \<open>The grid engine of the 2048 game (frontend/src/App.jsx)\<close>

text \<open>
  The engine lives inside the React component \<open>App\<close>: the functions
  \<open>initializeGrid\<close>, \<open>addNewTile\<close>, \<open>move\<close> (with its local \<open>moveRow\<close>) and
  \<open>checkGameOver\<close>. The grid is a JavaScript array of numbers, row-major. The engine
  only ever writes 0, 2, 4 and doubles of cells it read, so that a cell is modelled as
  a natural number. The component state read and written by \<open>move\<close> (\<open>grid\<close>,
  \<open>score\<close>, \<open>bestScore\<close>, \<open>gameOver\<close>) is a record that is passed in and returned.
  The two calls of \<open>Math.random()\<close> made by \<open>addNewTile\<close> are a parameter. Floating
  point numbers are not modelled: a call of \<open>addNewTile\<close> is given the values of the two
  expressions in which the draws occur, and nothing is said about how often a value
  comes up.
\<close>

subsection \<open>Constants\<close>

definition GRID_SIZE :: nat where
  "GRID_SIZE = 4"

definition CELL_COUNT :: nat where
  "CELL_COUNT = GRID_SIZE * GRID_SIZE"

subsection \<open>Spawning a tile: \<open>addNewTile\<close>\<close>

text \<open>
  \<open>cellPick r n\<close> is the value of \<open>Math.floor(Math.random() * emptyCells.length)\<close> when
  there are \<open>n\<close> empty cells, and \<open>smallValue r\<close> is the value of
  \<open>Math.random() < 0.9\<close>. The first draw is a double from 0 (included) to 1 (excluded),
  so that with \<open>n\<close> empty cells, from 1 to \<open>CELL_COUNT\<close>, the floored product is an
  index from 0 to \<open>n - 1\<close>: this is all that \<open>validDraw\<close> asks.
\<close>

record rnd =
  cellPick :: "nat \<Rightarrow> nat"
  smallValue :: bool

definition validDraw :: "rnd \<Rightarrow> bool" where
  "validDraw r = list_all (\<lambda>n. cellPick r n < n) [1..<Suc CELL_COUNT]"

text \<open>The indices pushed by the \<open>forEach\<close>: those of the cells equal to 0, in order.\<close>

definition emptyCells :: "nat list \<Rightarrow> nat list" where
  "emptyCells currentGrid =
     filter (\<lambda>index. currentGrid ! index = 0) [0..<length currentGrid]"

definition spawnIndex :: "rnd \<Rightarrow> nat list \<Rightarrow> nat" where
  "spawnIndex r currentGrid =
     emptyCells currentGrid ! cellPick r (length (emptyCells currentGrid))"

definition spawnValue :: "rnd \<Rightarrow> nat" where
  "spawnValue r = (if smallValue r then 2 else 4)"

definition addNewTile :: "rnd \<Rightarrow> nat list \<Rightarrow> nat list" where
  "addNewTile r currentGrid =
     (if length (emptyCells currentGrid) > 0
      then currentGrid[spawnIndex r currentGrid := spawnValue r]
      else currentGrid)"

subsection \<open>Initialisation: \<open>initializeGrid\<close>\<close>

text \<open>
  \<open>initializeGrid\<close> takes no argument: the number of cells is the constant
  \<open>CELL_COUNT\<close>. It has no test of the size and no \<open>throw\<close>.
\<close>

definition initializeGrid :: "rnd \<Rightarrow> rnd \<Rightarrow> nat list" where
  "initializeGrid r1 r2 = addNewTile r2 (addNewTile r1 (replicate CELL_COUNT 0))"

subsection \<open>One line: \<open>moveRow\<close>\<close>

text \<open>
  The \<open>for\<close> loop of \<open>moveRow\<close> over the index \<open>i\<close>, with the array \<open>merged\<close> it
  pushes to and the variable \<open>points\<close> of the enclosing \<open>move\<close> that it adds to.
  After a merge the index advances by two.
\<close>

function mergeLoop :: "nat list \<Rightarrow> nat \<Rightarrow> nat list \<Rightarrow> nat \<Rightarrow> nat list \<times> nat" where
  "mergeLoop filtered i merged points =
     (if i < length filtered then
        (if i < length filtered - 1 \<and> filtered ! i = filtered ! (i + 1)
         then mergeLoop filtered (i + 2) (merged @ [filtered ! i * 2])
                (points + filtered ! i * 2)
         else mergeLoop filtered (i + 1) (merged @ [filtered ! i]) points)
      else (merged, points))"
  by pat_completeness auto
termination
  by (relation "measure (\<lambda>(filtered, i, merged, points). length filtered - i)") auto

declare mergeLoop.simps [simp del]

text \<open>The \<open>while\<close> loop that pads \<open>merged\<close> with zeros up to \<open>GRID_SIZE\<close> cells.\<close>

function padLoop :: "nat list \<Rightarrow> nat list" where
  "padLoop merged =
     (if length merged < GRID_SIZE then padLoop (merged @ [0]) else merged)"
  by pat_completeness auto
termination
  by (relation "measure (\<lambda>merged. GRID_SIZE - length merged)") auto

declare padLoop.simps [simp del]

definition moveRow :: "nat list \<Rightarrow> nat \<Rightarrow> nat list \<times> nat" where
  "moveRow row points =
     (let filtered = filter (\<lambda>val. val \<noteq> 0) row;
          (merged, points') = mergeLoop filtered 0 [] points
      in (padLoop merged, points'))"

text \<open>
  The states that the \<open>for\<close> loop passes through on the compacted line \<open>filtered\<close>:
  the index \<open>i\<close> at the head of the loop, the tiles pushed to \<open>merged\<close> so far and the
  points that this line has earned so far.
\<close>

inductive scanAt :: "nat list \<Rightarrow> nat \<Rightarrow> nat list \<Rightarrow> nat \<Rightarrow> bool" where
  first: "scanAt filtered 0 [] 0"
| merge: "scanAt filtered i merged pts \<Longrightarrow> i < length filtered \<Longrightarrow>
          i < length filtered - 1 \<and> filtered ! i = filtered ! (i + 1) \<Longrightarrow>
          scanAt filtered (i + 2) (merged @ [filtered ! i * 2]) (pts + filtered ! i * 2)"
| keep: "scanAt filtered i merged pts \<Longrightarrow> i < length filtered \<Longrightarrow>
         \<not> (i < length filtered - 1 \<and> filtered ! i = filtered ! (i + 1)) \<Longrightarrow>
         scanAt filtered (i + 1) (merged @ [filtered ! i]) pts"

subsection \<open>All lines: the two branches of \<open>move\<close>\<close>

datatype direction = Up | Down | Left | Right

text \<open>
  The state of the loops of \<open>move\<close>: the copy \<open>newGrid\<close>, the flag \<open>moved\<close> and
  \<open>points\<close>. The inner write-back loop compares a cell with the new value before it
  overwrites it. The direction is one of the four strings that the key and touch
  handlers pass; in the second branch whatever is not \<open>up\<close> is treated as \<open>down\<close>.
  Every index \<open>i * GRID_SIZE + j\<close> is in range on a grid of \<open>CELL_COUNT\<close> cells, the
  only grids that \<open>initializeGrid\<close> and \<open>move\<close> produce; the properties below are
  stated for grids of that length, and a shorter array, on which the source would read
  \<open>undefined\<close>, is outside the model.
\<close>

type_synonym pass = "nat list \<times> bool \<times> nat"

definition rowStep :: "direction \<Rightarrow> nat \<Rightarrow> pass \<Rightarrow> pass" where
  "rowStep direction i st =
     (case st of (newGrid, moved, points) \<Rightarrow>
        let row = map (\<lambda>j. newGrid ! (i * GRID_SIZE + j)) [0..<GRID_SIZE];
            (movedRow, points') =
               (if direction = Left then moveRow row points
                else (case moveRow (rev row) points of (m, p) \<Rightarrow> (rev m, p)));
            (newGrid', moved') =
               fold (\<lambda>j (g, mv).
                       (g[i * GRID_SIZE + j := movedRow ! j],
                        (if g ! (i * GRID_SIZE + j) \<noteq> movedRow ! j then True else mv)))
                    [0..<GRID_SIZE] (newGrid, moved)
        in (newGrid', moved', points'))"

definition columnStep :: "direction \<Rightarrow> nat \<Rightarrow> pass \<Rightarrow> pass" where
  "columnStep direction j st =
     (case st of (newGrid, moved, points) \<Rightarrow>
        let column = map (\<lambda>i. newGrid ! (i * GRID_SIZE + j)) [0..<GRID_SIZE];
            (movedColumn, points') =
               (if direction = Up then moveRow column points
                else (case moveRow (rev column) points of (m, p) \<Rightarrow> (rev m, p)));
            (newGrid', moved') =
               fold (\<lambda>i (g, mv).
                       (g[i * GRID_SIZE + j := movedColumn ! i],
                        (if g ! (i * GRID_SIZE + j) \<noteq> movedColumn ! i then True else mv)))
                    [0..<GRID_SIZE] (newGrid, moved)
        in (newGrid', moved', points'))"

text \<open>
  The array that \<open>move\<close> hands to \<open>moveRow\<close> for line \<open>k\<close>: the row or the column,
  reversed for \<open>right\<close> and \<open>down\<close>, so that its first cell is the one at the edge that
  the tiles move to.
\<close>

definition scanLine :: "direction \<Rightarrow> nat list \<Rightarrow> nat \<Rightarrow> nat list" where
  "scanLine direction grid0 k =
     (if direction = Left then map (\<lambda>j. grid0 ! (k * GRID_SIZE + j)) [0..<GRID_SIZE]
      else if direction = Right then rev (map (\<lambda>j. grid0 ! (k * GRID_SIZE + j)) [0..<GRID_SIZE])
      else if direction = Up then map (\<lambda>i. grid0 ! (i * GRID_SIZE + k)) [0..<GRID_SIZE]
      else rev (map (\<lambda>i. grid0 ! (i * GRID_SIZE + k)) [0..<GRID_SIZE]))"

text \<open>
  The slide and merge pass of \<open>move\<close>, from the copy of the grid to the test of
  \<open>moved\<close>: the new grid before any spawn, the flag \<open>moved\<close> and the points.
\<close>

definition moveLines :: "direction \<Rightarrow> nat list \<Rightarrow> pass" where
  "moveLines direction grid0 =
     (if direction = Left \<or> direction = Right
      then fold (rowStep direction) [0..<GRID_SIZE] (grid0, False, 0)
      else fold (columnStep direction) [0..<GRID_SIZE] (grid0, False, 0))"

subsection \<open>Terminal detection: \<open>checkGameOver\<close>\<close>

text \<open>The nested loops; each \<open>return false\<close> leaves both loops.\<close>

fun checkColumns :: "nat list \<Rightarrow> nat \<Rightarrow> nat list \<Rightarrow> bool" where
  "checkColumns currentGrid i [] = True"
| "checkColumns currentGrid i (j # js) =
     (let current = currentGrid ! (i * GRID_SIZE + j) in
      if j < GRID_SIZE - 1 \<and> current = currentGrid ! (i * GRID_SIZE + j + 1) then False
      else if i < GRID_SIZE - 1 \<and> current = currentGrid ! ((i + 1) * GRID_SIZE + j) then False
      else checkColumns currentGrid i js)"

fun checkRows :: "nat list \<Rightarrow> nat list \<Rightarrow> bool" where
  "checkRows currentGrid [] = True"
| "checkRows currentGrid (i # is) =
     (if checkColumns currentGrid i [0..<GRID_SIZE] then checkRows currentGrid is else False)"

definition checkGameOver :: "nat list \<Rightarrow> bool" where
  "checkGameOver currentGrid =
     (if 0 \<in> set currentGrid then False else checkRows currentGrid [0..<GRID_SIZE])"

subsection \<open>The move as a whole\<close>

record game =
  grid :: "nat list"
  score :: nat
  bestScore :: nat
  gameOver :: bool

text \<open>
  \<open>move\<close> returns at once when \<open>gameOver\<close> is set and changes nothing when \<open>moved\<close>
  stays false. The write of the best score to the browser's store and the toast of
  \<open>handleGameOver\<close> have no effect on the state and are left out.
\<close>

definition move :: "direction \<Rightarrow> rnd \<Rightarrow> game \<Rightarrow> game" where
  "move direction r st =
     (if gameOver st then st
      else case moveLines direction (grid st) of (newGrid, moved, points) \<Rightarrow>
        if moved then
          let spawned = addNewTile r newGrid;
              newScore = score st + points
          in \<lparr>grid = spawned,
              score = newScore,
              bestScore = (if newScore > bestScore st then newScore else bestScore st),
              gameOver = (if checkGameOver spawned then True else gameOver st)\<rparr>
        else st)"

definition newGame :: "rnd \<Rightarrow> rnd \<Rightarrow> game \<Rightarrow> game" where
  "newGame r1 r2 st = st\<lparr>grid := initializeGrid r1 r2, score := 0, gameOver := False\<rparr>"

text \<open>
  The states of a game: the one set up when the component mounts (any saved best
  score), and those that \<open>move\<close> and \<open>newGame\<close> lead to.
\<close>

inductive reachable :: "game \<Rightarrow> bool" where
  start: "validDraw r1 \<Longrightarrow> validDraw r2 \<Longrightarrow>
          reachable \<lparr>grid = initializeGrid r1 r2, score = 0, bestScore = b, gameOver = False\<rparr>"
| moved: "reachable st \<Longrightarrow> validDraw r \<Longrightarrow> reachable (move direction r st)"
| again: "reachable st \<Longrightarrow> validDraw r1 \<Longrightarrow> validDraw r2 \<Longrightarrow> reachable (newGame r1 r2 st)"

subsection \<open>Notions used in the proofs\<close>

text \<open>
  The merge scan as a recursion on the compacted sequence, a line after the slide and
  the merge, and the grid seen as its four lines in a direction: line \<open>k\<close> of the rows
  (\<open>horiz\<close>) or of the columns, read from the first cell to the last.
\<close>

fun mergedOf :: "nat list \<Rightarrow> nat list" where
  "mergedOf (x # y # rest) = (if x = y then x * 2 # mergedOf rest else x # mergedOf (y # rest))"
| "mergedOf [x] = [x]"
| "mergedOf [] = []"

fun pointsOf :: "nat list \<Rightarrow> nat" where
  "pointsOf (x # y # rest) = (if x = y then x * 2 + pointsOf rest else pointsOf (y # rest))"
| "pointsOf [x] = 0"
| "pointsOf [] = 0"

definition dropZeros :: "nat list \<Rightarrow> nat list" where
  "dropZeros l = filter (\<lambda>v. v \<noteq> 0) l"

definition slid :: "nat list \<Rightarrow> nat list" where
  "slid l = mergedOf (dropZeros l) @ replicate (GRID_SIZE - length (mergedOf (dropZeros l))) 0"

definition gained :: "nat list \<Rightarrow> nat" where
  "gained l = pointsOf (dropZeros l)"

definition ixOf :: "bool \<Rightarrow> nat \<Rightarrow> nat \<Rightarrow> nat" where
  "ixOf horiz k t = (if horiz then k * GRID_SIZE + t else t * GRID_SIZE + k)"

definition getLine :: "bool \<Rightarrow> nat list \<Rightarrow> nat \<Rightarrow> nat list" where
  "getLine horiz g k = map (\<lambda>t. g ! ixOf horiz k t) [0..<GRID_SIZE]"

definition putLine :: "bool \<Rightarrow> nat \<Rightarrow> nat list \<Rightarrow> nat list \<Rightarrow> nat list" where
  "putLine horiz k r g =
     g[ixOf horiz k 0 := r ! 0, ixOf horiz k 1 := r ! 1,
       ixOf horiz k 2 := r ! 2, ixOf horiz k 3 := r ! 3]"

definition slideLine :: "bool \<Rightarrow> nat list \<Rightarrow> nat list" where
  "slideLine fwd l = (if fwd then slid l else rev (slid (rev l)))"

definition linePoints :: "bool \<Rightarrow> nat list \<Rightarrow> nat" where
  "linePoints fwd l = (if fwd then gained l else gained (rev l))"

definition lineStep :: "bool \<Rightarrow> bool \<Rightarrow> nat \<Rightarrow> pass \<Rightarrow> pass" where
  "lineStep horiz fwd k st =
     (case st of (g, m, p) \<Rightarrow>
        (putLine horiz k (slideLine fwd (getLine horiz g k)) g,
         m \<or> slideLine fwd (getLine horiz g k) \<noteq> getLine horiz g k,
         p + linePoints fwd (getLine horiz g k)))"

definition horizontal :: "direction \<Rightarrow> bool" where
  "horizontal d = (d = Left \<or> d = Right)"

definition forward :: "direction \<Rightarrow> bool" where
  "forward d = (d = Left \<or> d = Up)"

section \<open>Lemmas about lines and grids\<close>

subsection \<open>The merge scan and the padding\<close>

lemma mergeLoop_drop:
  "mergeLoop f i m p = (m @ mergedOf (drop i f), p + pointsOf (drop i f))"
proof (induction f i m p rule: mergeLoop.induct)
  case (1 f i m p)
  show ?case
  proof (cases "i < length f")
    case False
    then show ?thesis by (simp add: mergeLoop.simps)
  next
    case inrange: True
    show ?thesis
    proof (cases "i < length f - 1")
      case False
      with inrange have last: "Suc i = length f" by simp
      then have d: "drop i f = [f ! i]"
        by (metis Cons_nth_drop_Suc drop_all inrange le_refl)
      from 1(2) [OF inrange] False have
        "mergeLoop f (i + 1) (m @ [f ! i]) p
           = ((m @ [f ! i]) @ mergedOf (drop (i + 1) f), p + pointsOf (drop (i + 1) f))"
        by simp
      with inrange False last d show ?thesis
        by (subst mergeLoop.simps) simp
    next
      case two: True
      then have d: "drop i f = f ! i # f ! (i + 1) # drop (i + 2) f"
        using inrange by (simp add: Cons_nth_drop_Suc)
      show ?thesis
      proof (cases "f ! i = f ! (i + 1)")
        case True
        with 1(1) [OF inrange] two have
          "mergeLoop f (i + 2) (m @ [f ! i * 2]) (p + f ! i * 2)
             = ((m @ [f ! i * 2]) @ mergedOf (drop (i + 2) f),
                (p + f ! i * 2) + pointsOf (drop (i + 2) f))"
          by simp
        with inrange two True d show ?thesis
          by (subst mergeLoop.simps) simp
      next
        case False
        with 1(2) [OF inrange] have
          "mergeLoop f (i + 1) (m @ [f ! i]) p
             = ((m @ [f ! i]) @ mergedOf (drop (i + 1) f), p + pointsOf (drop (i + 1) f))"
          by simp
        moreover have "drop (i + 1) f = f ! (i + 1) # drop (i + 2) f"
          using two by (simp add: Cons_nth_drop_Suc)
        ultimately show ?thesis using inrange two False d
          by (subst mergeLoop.simps) simp
      qed
    qed
  qed
qed

lemma padLoop_replicate: "padLoop m = m @ replicate (GRID_SIZE - length m) 0"
proof (induction m rule: padLoop.induct)
  case (1 m)
  show ?case
  proof (cases "length m < GRID_SIZE")
    case True
    then have "GRID_SIZE - length m = Suc (GRID_SIZE - Suc (length m))" by simp
    with 1 [OF True] True show ?thesis
      by (subst padLoop.simps) (simp add: replicate_app_Cons_same)
  next
    case False
    then show ?thesis by (subst padLoop.simps) simp
  qed
qed

lemma dropZeros_nonzero: "0 \<notin> set (dropZeros l)"
  by (simp add: dropZeros_def)

lemma dropZeros_id: "0 \<notin> set l \<Longrightarrow> dropZeros l = l"
  by (induction l) (auto simp: dropZeros_def)

lemma length_dropZeros: "length (dropZeros l) \<le> length l"
  by (simp add: dropZeros_def)

lemma dropZeros_full: "length (dropZeros l) = length l \<Longrightarrow> dropZeros l = l"
  unfolding dropZeros_def by (metis filter_True length_filter_less less_irrefl)

lemma sum_list_dropZeros: "sum_list (dropZeros l) = sum_list l"
  by (induction l) (auto simp: dropZeros_def)

lemma dropZeros_append: "dropZeros (xs @ ys) = dropZeros xs @ dropZeros ys"
  by (simp add: dropZeros_def)

lemma dropZeros_zeros: "dropZeros (replicate n 0) = []"
  by (simp add: dropZeros_def)

lemma dropZeros_rev: "dropZeros (rev l) = rev (dropZeros l)"
  by (simp add: dropZeros_def rev_filter)

lemma set_dropZeros: "set (dropZeros l) = set l - {0}"
  by (auto simp: dropZeros_def)

lemma moveRow_slid: "moveRow row p = (slid row, p + gained row)"
  by (simp add: moveRow_def mergeLoop_drop padLoop_replicate Let_def slid_def gained_def
      dropZeros_def)

lemma length_mergedOf: "length (mergedOf xs) \<le> length xs"
  by (induction xs rule: mergedOf.induct) auto

lemma sum_list_mergedOf: "sum_list (mergedOf xs) = sum_list xs"
  by (induction xs rule: mergedOf.induct) auto

lemma mergedOf_same_length:
  "length (mergedOf xs) = length xs \<Longrightarrow> mergedOf xs = xs \<and> pointsOf xs = 0"
proof (induction xs rule: mergedOf.induct)
  case (1 x y rest)
  show ?case
  proof (cases "x = y")
    case True
    with 1(3) have "length (mergedOf rest) = Suc (length rest)" by simp
    with length_mergedOf [of rest] show ?thesis by simp
  next
    case False
    with 1 show ?thesis by simp
  qed
qed simp_all

lemma mergedOf_nonzero: "0 \<notin> set xs \<Longrightarrow> 0 \<notin> set (mergedOf xs)"
  by (induction xs rule: mergedOf.induct) auto

lemma pointsOf_zero: "0 \<notin> set xs \<Longrightarrow> pointsOf xs = 0 \<Longrightarrow> mergedOf xs = xs"
  by (induction xs rule: mergedOf.induct) (auto split: if_splits)

lemma mergedOf_all:
  "(\<And>x. P x \<Longrightarrow> P (x * 2)) \<Longrightarrow> \<forall>x\<in>set xs. P x \<Longrightarrow> \<forall>x\<in>set (mergedOf xs). P x"
  by (induction xs rule: mergedOf.induct) auto

lemma length_slid: "length l \<le> GRID_SIZE \<Longrightarrow> length (slid l) = GRID_SIZE"
proof -
  assume "length l \<le> GRID_SIZE"
  moreover have "length (mergedOf (dropZeros l)) \<le> length l"
    by (rule order_trans [OF length_mergedOf length_dropZeros])
  ultimately show ?thesis by (simp add: slid_def)
qed

lemma sum_list_slid: "sum_list (slid l) = sum_list l"
  by (simp add: slid_def sum_list_mergedOf sum_list_dropZeros)

lemma dropZeros_slid: "dropZeros (slid l) = mergedOf (dropZeros l)"
  by (simp add: slid_def dropZeros_append dropZeros_zeros dropZeros_id mergedOf_nonzero
      dropZeros_nonzero)

lemma gained_zero: "gained l = 0 \<Longrightarrow> dropZeros (slid l) = dropZeros l"
  by (simp add: dropZeros_slid gained_def pointsOf_zero dropZeros_nonzero)

lemma slid_fixed: "slid l = l \<Longrightarrow> gained l = 0"
proof -
  assume "slid l = l"
  then have "dropZeros (slid l) = dropZeros l" by simp
  then have "length (mergedOf (dropZeros l)) = length (dropZeros l)"
    by (simp add: dropZeros_slid)
  then show ?thesis unfolding gained_def by (simp add: mergedOf_same_length)
qed

lemma slid_changed:
  assumes "length l = GRID_SIZE" and "slid l \<noteq> l"
  shows "0 \<in> set (slid l)"
proof (rule ccontr)
  assume nz: "0 \<notin> set (slid l)"
  then have "GRID_SIZE - length (mergedOf (dropZeros l)) = 0"
    by (auto simp: slid_def)
  then have a: "length l \<le> length (mergedOf (dropZeros l))" using assms(1) by simp
  have b: "length (mergedOf (dropZeros l)) \<le> length (dropZeros l)" by (rule length_mergedOf)
  have c: "length (dropZeros l) \<le> length l" by (rule length_dropZeros)
  from a b c have "length (dropZeros l) = length l" by simp
  then have fl: "dropZeros l = l" by (rule dropZeros_full)
  from a b c have "length (mergedOf (dropZeros l)) = length (dropZeros l)" by simp
  then have "mergedOf (dropZeros l) = dropZeros l" by (simp add: mergedOf_same_length)
  with fl have "mergedOf l = l" by simp
  with fl assms(1) have "slid l = l" by (simp add: slid_def)
  with assms(2) show False by simp
qed

lemma slid_all:
  assumes "\<And>x. P x \<Longrightarrow> P (x * 2)" and "P 0" and "\<forall>x\<in>set l. P x"
  shows "\<forall>x\<in>set (slid l). P x"
proof -
  have "\<forall>x\<in>set (dropZeros l). P x" using assms(3) by (simp add: set_dropZeros)
  then have "\<forall>x\<in>set (mergedOf (dropZeros l)). P x"
    by (rule mergedOf_all [rotated]) (rule assms(1))
  then show ?thesis using assms(2) by (auto simp: slid_def)
qed

subsection \<open>The write-back loop\<close>

lemma upt_GRID_SIZE: "[0..<GRID_SIZE] = [0, 1, 2, 3]"
  by (simp add: GRID_SIZE_def upt_rec)

lemma four_cases: "k < GRID_SIZE \<Longrightarrow> k = 0 \<or> k = 1 \<or> k = 2 \<or> k = 3"
  by (auto simp: GRID_SIZE_def)

lemma list4: "length (r::nat list) = GRID_SIZE \<Longrightarrow> \<exists>a b c d. r = [a, b, c, d]"
  by (auto simp: GRID_SIZE_def numeral_eq_Suc length_Suc_conv)

lemma list16:
  "length (g::nat list) = CELL_COUNT \<Longrightarrow>
   \<exists>a0 a1 a2 a3 a4 a5 a6 a7 a8 a9 a10 a11 a12 a13 a14 a15.
     g = [a0, a1, a2, a3, a4, a5, a6, a7, a8, a9, a10, a11, a12, a13, a14, a15]"
  by (auto simp: CELL_COUNT_def GRID_SIZE_def numeral_eq_Suc length_Suc_conv)

lemma writeBack_fold:
  assumes "distinct [ix 0, ix 1, ix 2, ix (3::nat)]"
    and "length r = GRID_SIZE"
  shows "fold (\<lambda>t (g, mv). (g[ix t := r ! t], (if g ! ix t \<noteq> r ! t then True else mv)))
              [0..<GRID_SIZE] (g::nat list, m)
         = (g[ix 0 := r ! 0, ix 1 := r ! 1, ix 2 := r ! 2, ix 3 := r ! 3],
            m \<or> r \<noteq> map (\<lambda>t. g ! ix t) [0..<GRID_SIZE])"
proof -
  from list4 [OF assms(2)] obtain a b c d where r: "r = [a, b, c, d]" by blast
  show ?thesis using assms(1)
    by (auto simp: r upt_GRID_SIZE)
qed

lemma length_slideLine: "length l = GRID_SIZE \<Longrightarrow> length (slideLine fwd l) = GRID_SIZE"
  by (simp add: slideLine_def length_slid)

lemma length_getLine: "length (getLine h g k) = GRID_SIZE"
  by (simp add: getLine_def)

lemma distinct_ixOf:
  "k < GRID_SIZE \<Longrightarrow> distinct [ixOf h k 0, ixOf h k 1, ixOf h k 2, ixOf h k 3]"
  by (simp add: ixOf_def GRID_SIZE_def)

lemma rowStep_lineStep:
  "i < GRID_SIZE \<Longrightarrow> rowStep d i (g, m, p) = lineStep True (d = Left) i (g, m, p)"
proof -
  assume i: "i < GRID_SIZE"
  let ?row = "map (\<lambda>j. g ! (i * GRID_SIZE + j)) [0..<GRID_SIZE]"
  have row: "?row = getLine True g i" by (simp add: getLine_def ixOf_def)
  have mr: "(if d = Left then moveRow ?row p
             else (case moveRow (rev ?row) p of (m, p) \<Rightarrow> (rev m, p)))
            = (slideLine (d = Left) ?row, p + linePoints (d = Left) ?row)"
    by (simp add: moveRow_slid slideLine_def linePoints_def)
  have len: "length (slideLine (d = Left) ?row) = GRID_SIZE"
    by (rule length_slideLine) simp
  have wb: "fold (\<lambda>j (g, mv). (g[i * GRID_SIZE + j := slideLine (d = Left) ?row ! j],
                 (if g ! (i * GRID_SIZE + j) \<noteq> slideLine (d = Left) ?row ! j then True else mv)))
              [0..<GRID_SIZE] (g, m)
         = (g[i * GRID_SIZE + 0 := slideLine (d = Left) ?row ! 0,
              i * GRID_SIZE + 1 := slideLine (d = Left) ?row ! 1,
              i * GRID_SIZE + 2 := slideLine (d = Left) ?row ! 2,
              i * GRID_SIZE + 3 := slideLine (d = Left) ?row ! 3],
            m \<or> slideLine (d = Left) ?row \<noteq> ?row)"
    by (rule writeBack_fold [where ix = "\<lambda>j. i * GRID_SIZE + j"]) (simp_all add: len)
  show ?thesis
    unfolding rowStep_def lineStep_def prod.case Let_def mr wb
    by (simp add: row putLine_def ixOf_def)
qed

lemma columnStep_lineStep:
  "j < GRID_SIZE \<Longrightarrow> columnStep d j (g, m, p) = lineStep False (d = Up) j (g, m, p)"
proof -
  assume j: "j < GRID_SIZE"
  let ?col = "map (\<lambda>i. g ! (i * GRID_SIZE + j)) [0..<GRID_SIZE]"
  have col: "?col = getLine False g j" by (simp add: getLine_def ixOf_def)
  have mr: "(if d = Up then moveRow ?col p
             else (case moveRow (rev ?col) p of (m, p) \<Rightarrow> (rev m, p)))
            = (slideLine (d = Up) ?col, p + linePoints (d = Up) ?col)"
    by (simp add: moveRow_slid slideLine_def linePoints_def)
  have len: "length (slideLine (d = Up) ?col) = GRID_SIZE"
    by (rule length_slideLine) simp
  have wb: "fold (\<lambda>i (g, mv). (g[i * GRID_SIZE + j := slideLine (d = Up) ?col ! i],
                 (if g ! (i * GRID_SIZE + j) \<noteq> slideLine (d = Up) ?col ! i then True else mv)))
              [0..<GRID_SIZE] (g, m)
         = (g[0 * GRID_SIZE + j := slideLine (d = Up) ?col ! 0,
              1 * GRID_SIZE + j := slideLine (d = Up) ?col ! 1,
              2 * GRID_SIZE + j := slideLine (d = Up) ?col ! 2,
              3 * GRID_SIZE + j := slideLine (d = Up) ?col ! 3],
            m \<or> slideLine (d = Up) ?col \<noteq> ?col)"
    by (rule writeBack_fold [where ix = "\<lambda>i. i * GRID_SIZE + j"])
       (simp add: GRID_SIZE_def, rule len)
  show ?thesis
    unfolding columnStep_def lineStep_def prod.case Let_def mr wb
    by (simp add: col putLine_def ixOf_def)
qed

subsection \<open>The lines of a grid\<close>

lemma upt_4: "[0..<4] = [0, 1, 2, 3::nat]"
  by (simp add: upt_rec)

lemma length_putLine: "length (putLine h k r g) = length g"
  by (simp add: putLine_def)

lemma getLine_putLine_same:
  assumes "length g = CELL_COUNT" and "k < GRID_SIZE" and "length r = GRID_SIZE"
  shows "getLine h (putLine h k r g) k = r"
proof -
  from list4 [OF assms(3)] obtain a b c d where r: "r = [a, b, c, d]" by blast
  from four_cases [OF assms(2)] show ?thesis using assms(1)
    by (cases h)
       (auto simp: r getLine_def putLine_def ixOf_def upt_4 GRID_SIZE_def
          CELL_COUNT_def)
qed

lemma getLine_putLine_other:
  assumes "length g = CELL_COUNT" and "k < GRID_SIZE" and "k' < GRID_SIZE" and "k' \<noteq> k"
  shows "getLine h (putLine h k r g) k' = getLine h g k'"
  using four_cases [OF assms(2)] four_cases [OF assms(3)] assms(1,4)
  by (cases h)
     (auto simp: getLine_def putLine_def ixOf_def upt_4 GRID_SIZE_def
        CELL_COUNT_def)

lemma lines_determine:
  assumes "length g = CELL_COUNT" and "length g' = CELL_COUNT"
    and "\<forall>k<GRID_SIZE. getLine h g k = getLine h g' k"
  shows "g = g'"
proof -
  from list16 [OF assms(1)] obtain a0 a1 a2 a3 a4 a5 a6 a7 a8 a9 a10 a11 a12 a13 a14 a15
    where g: "g = [a0, a1, a2, a3, a4, a5, a6, a7, a8, a9, a10, a11, a12, a13, a14, a15]"
    by blast
  from list16 [OF assms(2)] obtain b0 b1 b2 b3 b4 b5 b6 b7 b8 b9 b10 b11 b12 b13 b14 b15
    where g': "g' = [b0, b1, b2, b3, b4, b5, b6, b7, b8, b9, b10, b11, b12, b13, b14, b15]"
    by blast
  from assms(3) have "getLine h g 0 = getLine h g' 0" "getLine h g 1 = getLine h g' 1"
    "getLine h g 2 = getLine h g' 2" "getLine h g 3 = getLine h g' 3"
    by (simp_all add: GRID_SIZE_def)
  then show ?thesis
    by (cases h) (simp_all add: g g' getLine_def ixOf_def upt_4 GRID_SIZE_def)
qed

lemma mset_lines:
  assumes "length g = CELL_COUNT"
  shows "mset g = mset (concat (map (getLine h g) [0..<GRID_SIZE]))"
proof -
  from list16 [OF assms(1)] obtain a0 a1 a2 a3 a4 a5 a6 a7 a8 a9 a10 a11 a12 a13 a14 a15
    where g: "g = [a0, a1, a2, a3, a4, a5, a6, a7, a8, a9, a10, a11, a12, a13, a14, a15]"
    by blast
  show ?thesis
    by (cases h) (simp_all add: g getLine_def ixOf_def upt_4 GRID_SIZE_def)
qed

subsection \<open>The pass over the four lines\<close>

lemma fold_lineStep:
  assumes "length g = CELL_COUNT" and "n \<le> GRID_SIZE"
  shows "\<exists>g'. fold (lineStep h f) [0..<n] (g, False, 0)
               = (g', (\<exists>k<n. slideLine f (getLine h g k) \<noteq> getLine h g k),
                  (\<Sum>k<n. linePoints f (getLine h g k)))
            \<and> length g' = CELL_COUNT
            \<and> (\<forall>k<GRID_SIZE. getLine h g' k =
                  (if k < n then slideLine f (getLine h g k) else getLine h g k))"
  using assms(2)
proof (induction n)
  case 0
  with assms(1) show ?case by simp
next
  case (Suc n)
  then have n: "n < GRID_SIZE" by simp
  from Suc obtain g' where
    run: "fold (lineStep h f) [0..<n] (g, False, 0)
            = (g', (\<exists>k<n. slideLine f (getLine h g k) \<noteq> getLine h g k),
               (\<Sum>k<n. linePoints f (getLine h g k)))"
    and len: "length g' = CELL_COUNT"
    and lines: "\<forall>k<GRID_SIZE. getLine h g' k =
                  (if k < n then slideLine f (getLine h g k) else getLine h g k)"
    by auto
  from lines n have here: "getLine h g' n = getLine h g n" by simp
  let ?r = "slideLine f (getLine h g n)"
  have lr: "length ?r = GRID_SIZE"
    by (rule length_slideLine) (rule length_getLine)
  have "fold (lineStep h f) [0..<Suc n] (g, False, 0)
          = (putLine h n ?r g',
             (\<exists>k<Suc n. slideLine f (getLine h g k) \<noteq> getLine h g k),
             (\<Sum>k<Suc n. linePoints f (getLine h g k)))"
    by (simp add: run lineStep_def here less_Suc_eq) blast
  moreover have "length (putLine h n ?r g') = CELL_COUNT"
    by (simp add: length_putLine len)
  moreover have "\<forall>k<GRID_SIZE. getLine h (putLine h n ?r g') k =
                   (if k < Suc n then slideLine f (getLine h g k) else getLine h g k)"
  proof (intro allI impI)
    fix k assume k: "k < GRID_SIZE"
    show "getLine h (putLine h n ?r g') k =
            (if k < Suc n then slideLine f (getLine h g k) else getLine h g k)"
    proof (cases "k = n")
      case True
      then show ?thesis by (simp add: getLine_putLine_same [OF len n lr])
    next
      case False
      with lines k show ?thesis
        by (simp add: getLine_putLine_other [OF len n k False] less_Suc_eq)
    qed
  qed
  ultimately show ?case by blast
qed

lemma moveLines_fold:
  "moveLines d g = fold (lineStep (horizontal d) (forward d)) [0..<GRID_SIZE] (g, False, 0)"
proof -
  have r: "fold (rowStep d) [0..<GRID_SIZE] s = fold (lineStep True (d = Left)) [0..<GRID_SIZE] s"
    for s
    by (rule fold_cong) (auto simp: rowStep_lineStep)
  have c: "fold (columnStep d) [0..<GRID_SIZE] s = fold (lineStep False (d = Up)) [0..<GRID_SIZE] s"
    for s
    by (rule fold_cong) (auto simp: columnStep_lineStep)
  show ?thesis
    unfolding moveLines_def r c
    by (cases d) (simp_all add: horizontal_def forward_def)
qed

lemma moveLines_length:
  assumes "length g = CELL_COUNT"
  shows "length (fst (moveLines d g)) = CELL_COUNT"
  using fold_lineStep [OF assms order_refl, of "horizontal d" "forward d"]
  unfolding moveLines_fold by auto

lemma moveLines_getLine:
  assumes "length g = CELL_COUNT" and "k < GRID_SIZE"
  shows "getLine (horizontal d) (fst (moveLines d g)) k
           = slideLine (forward d) (getLine (horizontal d) g k)"
  using fold_lineStep [OF assms(1) order_refl, of "horizontal d" "forward d"] assms(2)
  unfolding moveLines_fold by auto

lemma moveLines_moved:
  assumes "length g = CELL_COUNT"
  shows "fst (snd (moveLines d g)) =
           (\<exists>k<GRID_SIZE. slideLine (forward d) (getLine (horizontal d) g k)
                               \<noteq> getLine (horizontal d) g k)"
  using fold_lineStep [OF assms order_refl, of "horizontal d" "forward d"]
  unfolding moveLines_fold by auto

lemma moveLines_points:
  assumes "length g = CELL_COUNT"
  shows "snd (snd (moveLines d g)) =
           (\<Sum>k<GRID_SIZE. linePoints (forward d) (getLine (horizontal d) g k))"
  using fold_lineStep [OF assms order_refl, of "horizontal d" "forward d"]
  unfolding moveLines_fold by auto

subsection \<open>The grid after the pass\<close>

lemma sum_list_slideLine: "sum_list (slideLine f l) = sum_list l"
  by (simp add: slideLine_def sum_list_slid)

lemma dropZeros_slideLine: "linePoints f l = 0 \<Longrightarrow> dropZeros (slideLine f l) = dropZeros l"
  by (auto simp: slideLine_def linePoints_def gained_zero dropZeros_rev)

lemma slideLine_fixed: "slideLine f l = l \<Longrightarrow> linePoints f l = 0"
proof (cases f)
  case True
  assume "slideLine f l = l"
  with True show ?thesis by (simp add: slideLine_def linePoints_def slid_fixed)
next
  case False
  assume "slideLine f l = l"
  with False have "rev (slid (rev l)) = l" by (simp add: slideLine_def)
  then have "slid (rev l) = rev l" by (metis rev_rev_ident)
  with False show ?thesis by (simp add: linePoints_def slid_fixed)
qed

lemma slideLine_changed:
  assumes "length l = GRID_SIZE" and "slideLine f l \<noteq> l"
  shows "0 \<in> set (slideLine f l)"
proof (cases f)
  case True
  with assms show ?thesis by (simp add: slideLine_def slid_changed)
next
  case False
  with assms(2) have "slid (rev l) \<noteq> rev l" by (auto simp: slideLine_def)
  with assms(1) have "0 \<in> set (slid (rev l))" by (simp add: slid_changed)
  with False show ?thesis by (simp add: slideLine_def)
qed

lemma slideLine_all:
  assumes "\<And>x. P x \<Longrightarrow> P (x * 2)" and "P 0" and "\<forall>x\<in>set l. P x"
  shows "\<forall>x\<in>set (slideLine f l). P x"
  using slid_all [of P l, OF assms] slid_all [of P "rev l", OF assms(1,2)] assms(3)
  by (simp add: slideLine_def)

lemma mergedOf_distinct_adj: "distinct_adj xs \<Longrightarrow> mergedOf xs = xs"
  by (induction xs rule: mergedOf.induct) auto

lemma slideLine_terminal:
  assumes "length l = GRID_SIZE" and "0 \<notin> set l" and "distinct_adj l"
  shows "slideLine f l = l"
proof -
  have "slid m = m" if "length m = GRID_SIZE" and "0 \<notin> set m" and "distinct_adj m" for m
    using that by (simp add: slid_def dropZeros_id mergedOf_distinct_adj)
  from this [of l] this [of "rev l"] assms show ?thesis
    by (simp add: slideLine_def)
qed

lemma moveLines_mset:
  assumes "length g = CELL_COUNT"
  shows "mset (fst (moveLines d g)) =
           mset (concat (map (\<lambda>k. slideLine (forward d) (getLine (horizontal d) g k))
                   [0..<GRID_SIZE]))"
proof -
  have "map (getLine (horizontal d) (fst (moveLines d g))) [0..<GRID_SIZE]
          = map (\<lambda>k. slideLine (forward d) (getLine (horizontal d) g k)) [0..<GRID_SIZE]"
    by (simp add: moveLines_getLine [OF assms])
  with mset_lines [OF moveLines_length [OF assms], where h = "horizontal d" and d1 = d] show ?thesis
    by simp
qed

lemma sum_list_via_mset: "mset xs = mset ys \<Longrightarrow> sum_list xs = sum_list (ys::nat list)"
  by (metis sum_mset_sum_list)

lemma sum_list_lines: "sum_list (concat xss) = sum_list (map sum_list (xss::nat list list))"
  by (induction xss) auto

lemma moveLines_sum:
  assumes "length g = CELL_COUNT"
  shows "sum_list (fst (moveLines d g)) = sum_list g"
proof -
  have "sum_list (fst (moveLines d g))
          = sum_list (concat (map (\<lambda>k. slideLine (forward d) (getLine (horizontal d) g k))
                   [0..<GRID_SIZE]))"
    by (rule sum_list_via_mset [OF moveLines_mset [OF assms]])
  also have "\<dots> = sum_list (concat (map (getLine (horizontal d) g) [0..<GRID_SIZE]))"
    by (simp add: sum_list_lines comp_def sum_list_slideLine)
  also have "\<dots> = sum_list g"
    by (rule sum_list_via_mset [OF mset_lines [OF assms, symmetric]])
  finally show ?thesis .
qed

lemma mset_dropZeros: "mset xs = mset ys \<Longrightarrow> mset (dropZeros xs) = mset (dropZeros ys)"
  unfolding dropZeros_def mset_filter by simp

lemma dropZeros_concat: "dropZeros (concat xss) = concat (map dropZeros xss)"
  by (induction xss) (auto simp: dropZeros_def)

lemma moveLines_slide_only:
  assumes "length g = CELL_COUNT" and "snd (snd (moveLines d g)) = 0"
  shows "mset (dropZeros (fst (moveLines d g))) = mset (dropZeros g)"
proof -
  from assms(2) have z: "\<forall>k<GRID_SIZE. linePoints (forward d) (getLine (horizontal d) g k) = 0"
    by (simp add: moveLines_points [OF assms(1)])
  have "mset (dropZeros (fst (moveLines d g)))
          = mset (dropZeros (concat (map (\<lambda>k. slideLine (forward d) (getLine (horizontal d) g k))
                   [0..<GRID_SIZE])))"
    by (rule mset_dropZeros [OF moveLines_mset [OF assms(1)]])
  also have "\<dots> = mset (dropZeros (concat (map (getLine (horizontal d) g) [0..<GRID_SIZE])))"
  proof -
    have "map (\<lambda>k. dropZeros (slideLine (forward d) (getLine (horizontal d) g k))) [0..<GRID_SIZE]
            = map (\<lambda>k. dropZeros (getLine (horizontal d) g k)) [0..<GRID_SIZE]"
      using z by (auto simp: dropZeros_slideLine)
    then show ?thesis by (simp only: dropZeros_concat map_map comp_def)
  qed
  also have "\<dots> = mset (dropZeros g)"
    by (rule mset_dropZeros [OF mset_lines [OF assms(1), symmetric]])
  finally show ?thesis .
qed

lemma moveLines_moved_iff:
  assumes "length g = CELL_COUNT"
  shows "fst (snd (moveLines d g)) \<longleftrightarrow> fst (moveLines d g) \<noteq> g"
proof
  assume "fst (snd (moveLines d g))"
  then obtain k where k: "k < GRID_SIZE"
    and "slideLine (forward d) (getLine (horizontal d) g k) \<noteq> getLine (horizontal d) g k"
    unfolding moveLines_moved [OF assms] by blast
  then have "getLine (horizontal d) (fst (moveLines d g)) k \<noteq> getLine (horizontal d) g k"
    by (simp add: moveLines_getLine [OF assms k])
  then show "fst (moveLines d g) \<noteq> g" by auto
next
  assume "fst (moveLines d g) \<noteq> g"
  with lines_determine [OF moveLines_length [OF assms] assms, where h = "horizontal d" and d1 = d]
  obtain k where k: "k < GRID_SIZE"
    and "getLine (horizontal d) (fst (moveLines d g)) k \<noteq> getLine (horizontal d) g k"
    by blast
  then have "slideLine (forward d) (getLine (horizontal d) g k) \<noteq> getLine (horizontal d) g k"
    by (simp add: moveLines_getLine [OF assms k])
  with k show "fst (snd (moveLines d g))"
    unfolding moveLines_moved [OF assms] by blast
qed

lemma moveLines_unchanged:
  assumes "length g = CELL_COUNT" and "fst (moveLines d g) = g"
  shows "moveLines d g = (g, False, 0)"
proof -
  have m: "\<not> fst (snd (moveLines d g))"
    by (simp add: moveLines_moved_iff [OF assms(1)] assms(2))
  then have "\<forall>k<GRID_SIZE. slideLine (forward d) (getLine (horizontal d) g k)
                              = getLine (horizontal d) g k"
    unfolding moveLines_moved [OF assms(1)] by blast
  then have "\<forall>k<GRID_SIZE. linePoints (forward d) (getLine (horizontal d) g k) = 0"
    by (simp add: slideLine_fixed)
  then have "snd (snd (moveLines d g)) = 0"
    by (simp add: moveLines_points [OF assms(1)])
  with m assms(2) show ?thesis
    by (cases "moveLines d g") simp
qed

lemma moveLines_moved_empty:
  assumes "length g = CELL_COUNT" and "fst (snd (moveLines d g))"
  shows "0 \<in> set (fst (moveLines d g))"
proof -
  from assms(2) obtain k where k: "k < GRID_SIZE"
    and ch: "slideLine (forward d) (getLine (horizontal d) g k) \<noteq> getLine (horizontal d) g k"
    unfolding moveLines_moved [OF assms(1)] by blast
  have "0 \<in> set (slideLine (forward d) (getLine (horizontal d) g k))"
    by (rule slideLine_changed [OF length_getLine ch])
  with k have "0 \<in> set (concat (map (\<lambda>k. slideLine (forward d) (getLine (horizontal d) g k))
                   [0..<GRID_SIZE]))"
    by auto
  then have "0 \<in># mset (fst (moveLines d g))"
    unfolding moveLines_mset [OF assms(1)] by simp
  then show ?thesis by simp
qed

lemma set_lines:
  assumes "length g = CELL_COUNT"
  shows "set g = (\<Union>k<GRID_SIZE. set (getLine h g k))"
proof -
  have "set g = set_mset (mset g)" by simp
  also have "\<dots> = set (concat (map (getLine h g) [0..<GRID_SIZE]))"
    unfolding mset_lines [OF assms, where h = h] by simp
  also have "\<dots> = (\<Union>k<GRID_SIZE. set (getLine h g k))"
    by (simp add: lessThan_atLeast0)
  finally show ?thesis .
qed

lemma moveLines_all:
  assumes "length g = CELL_COUNT"
    and "\<And>x. P x \<Longrightarrow> P (x * 2)" and "P 0" and "\<forall>x\<in>set g. P x"
  shows "\<forall>x\<in>set (fst (moveLines d g)). P x"
proof
  fix x assume "x \<in> set (fst (moveLines d g))"
  then obtain k where k: "k < GRID_SIZE"
    and x: "x \<in> set (getLine (horizontal d) (fst (moveLines d g)) k)"
    unfolding set_lines [OF moveLines_length [OF assms(1)], where h = "horizontal d"] by blast
  have "\<forall>y\<in>set (getLine (horizontal d) g k). P y"
    using assms(4) k unfolding set_lines [OF assms(1), where h = "horizontal d"] by blast
  with assms(2,3) have "\<forall>y\<in>set (slideLine (forward d) (getLine (horizontal d) g k)). P y"
    by (intro slideLine_all [where P = P]) blast+
  with x show "P x" by (simp add: moveLines_getLine [OF assms(1) k])
qed

subsection \<open>The spawn\<close>

lemma emptyCells_iff: "i \<in> set (emptyCells g) \<longleftrightarrow> i < length g \<and> g ! i = 0"
  by (auto simp: emptyCells_def)

lemma emptyCells_nonempty: "0 \<in> set g \<Longrightarrow> 0 < length (emptyCells g)"
proof -
  assume "0 \<in> set g"
  then obtain i where "i < length g" "g ! i = 0" by (auto simp: in_set_conv_nth)
  then have "i \<in> set (emptyCells g)" by (simp add: emptyCells_iff)
  then show ?thesis by (cases "emptyCells g") auto
qed

lemma distinct_emptyCells: "distinct (emptyCells g)"
  by (simp add: emptyCells_def)

lemma length_emptyCells: "length (emptyCells g) \<le> length g"
  unfolding emptyCells_def by (rule order_trans [OF length_filter_le]) simp

lemma validDraw_pick:
  assumes "validDraw r" and "0 < n" and "n \<le> CELL_COUNT"
  shows "cellPick r n < n"
proof -
  from assms(2,3) have "n \<in> set [1..<Suc CELL_COUNT]" by auto
  with assms(1) show ?thesis unfolding validDraw_def list_all_iff by blast
qed

lemma spawn_cell:
  assumes "0 \<in> set g" and "validDraw r" and "length g \<le> CELL_COUNT"
  shows "spawnIndex r g \<in> set (emptyCells g)"
    and "addNewTile r g = g[spawnIndex r g := spawnValue r]"
proof -
  from emptyCells_nonempty [OF assms(1)] have n: "0 < length (emptyCells g)" .
  from length_emptyCells [of g] assms(3) have "length (emptyCells g) \<le> CELL_COUNT" by simp
  from validDraw_pick [OF assms(2) n this]
  show "spawnIndex r g \<in> set (emptyCells g)"
    by (simp add: spawnIndex_def)
  from n show "addNewTile r g = g[spawnIndex r g := spawnValue r]"
    by (simp add: addNewTile_def)
qed

lemma spawnValue_cases: "spawnValue r = 2 \<or> spawnValue r = 4"
  by (simp add: spawnValue_def)

lemma sum_list_spawn:
  assumes "0 \<in> set g" and "validDraw r" and "length g \<le> CELL_COUNT"
  shows "sum_list (addNewTile r g) = sum_list g + spawnValue r"
proof -
  from spawn_cell(1) [OF assms] have "spawnIndex r g < length g" "g ! spawnIndex r g = 0"
    by (simp_all add: emptyCells_iff)
  then show ?thesis
    by (simp add: spawn_cell(2) [OF assms] sum_list_update)
qed

lemma length_addNewTile: "length (addNewTile r g) = length g"
  by (simp add: addNewTile_def)

lemma move_unfold:
  "\<not> gameOver st \<Longrightarrow> fst (snd (moveLines d (grid st))) \<Longrightarrow>
     grid (move d r st) = addNewTile r (fst (moveLines d (grid st)))
     \<and> score (move d r st) = score st + snd (snd (moveLines d (grid st)))"
  by (cases "moveLines d (grid st)") (simp add: move_def Let_def)

lemma move_noop:
  "\<not> fst (snd (moveLines d (grid st))) \<Longrightarrow> move d r st = st"
  by (cases "moveLines d (grid st)") (simp add: move_def)

subsection \<open>Terminal grids\<close>

lemma checkColumns_iff:
  "checkColumns g i js \<longleftrightarrow>
     (\<forall>j\<in>set js. \<not> (j < GRID_SIZE - 1 \<and> g ! (i * GRID_SIZE + j) = g ! (i * GRID_SIZE + j + 1))
               \<and> \<not> (i < GRID_SIZE - 1 \<and> g ! (i * GRID_SIZE + j) = g ! ((i + 1) * GRID_SIZE + j)))"
  by (induction js) (auto simp: Let_def)

lemma checkRows_iff:
  "checkRows g rows \<longleftrightarrow> (\<forall>i\<in>set rows. checkColumns g i [0..<GRID_SIZE])"
  by (induction rows) auto

lemma checkGameOver_iff:
  "checkGameOver g \<longleftrightarrow>
     0 \<notin> set g
     \<and> (\<forall>i<GRID_SIZE. \<forall>j<GRID_SIZE.
          (j + 1 < GRID_SIZE \<longrightarrow> g ! (i * GRID_SIZE + j) \<noteq> g ! (i * GRID_SIZE + (j + 1)))
        \<and> (i + 1 < GRID_SIZE \<longrightarrow> g ! (i * GRID_SIZE + j) \<noteq> g ! ((i + 1) * GRID_SIZE + j)))"
proof -
  have a: "j < GRID_SIZE - 1 \<longleftrightarrow> j + 1 < GRID_SIZE" for j by auto
  show ?thesis
    unfolding checkGameOver_def checkRows_iff checkColumns_iff a
    by (auto simp: add.assoc)
qed

lemma terminal_line:
  assumes "length g = CELL_COUNT" and "checkGameOver g" and "k < GRID_SIZE"
  shows "0 \<notin> set (getLine h g k)" and "distinct_adj (getLine h g k)"
proof -
  from assms(2) have nz: "0 \<notin> set g"
    and adj: "\<And>i j. i < GRID_SIZE \<Longrightarrow> j < GRID_SIZE \<Longrightarrow>
          (j + 1 < GRID_SIZE \<longrightarrow> g ! (i * GRID_SIZE + j) \<noteq> g ! (i * GRID_SIZE + (j + 1)))
        \<and> (i + 1 < GRID_SIZE \<longrightarrow> g ! (i * GRID_SIZE + j) \<noteq> g ! ((i + 1) * GRID_SIZE + j))"
    unfolding checkGameOver_iff by blast+
  from nz assms(3) show "0 \<notin> set (getLine h g k)"
    unfolding set_lines [OF assms(1), where h = h] by blast
  show "distinct_adj (getLine h g k)"
  proof (cases h)
    case True
    from adj [of k 0] adj [of k 1] adj [of k 2] assms(3) True show ?thesis
      by (simp add: getLine_def ixOf_def upt_GRID_SIZE) (simp add: GRID_SIZE_def)
  next
    case False
    from adj [of 0 k] adj [of 1 k] adj [of 2 k] assms(3) False show ?thesis
      by (simp add: getLine_def ixOf_def upt_GRID_SIZE) (simp add: GRID_SIZE_def)
  qed
qed

lemma terminal_unchanged:
  assumes "length g = CELL_COUNT" and "checkGameOver g"
  shows "moveLines d g = (g, False, 0)"
proof -
  have "getLine (horizontal d) (fst (moveLines d g)) k = getLine (horizontal d) g k"
    if "k < GRID_SIZE" for k
    using terminal_line [OF assms that, of "horizontal d"]
    by (simp add: moveLines_getLine [OF assms(1) that] slideLine_terminal length_getLine)
  then have "fst (moveLines d g) = g"
    by (intro lines_determine [OF moveLines_length [OF assms(1)] assms(1),
          where h = "horizontal d"]) simp
  then show ?thesis by (rule moveLines_unchanged [OF assms(1)])
qed

subsection \<open>Counting the tiles\<close>

lemma count_update:
  assumes "k < length g" and "g ! k = 0" and "v \<noteq> 0"
  shows "length (dropZeros (g[k := v])) = length (dropZeros g) + 1"
proof -
  have a: "g[k := v] = take k g @ v # drop (Suc k) g"
    by (rule upd_conv_take_nth_drop [OF assms(1)])
  have b: "g = take k g @ 0 # drop (Suc k) g"
    using id_take_nth_drop [OF assms(1)] assms(2) by simp
  have "length (dropZeros (take k g @ v # drop (Suc k) g))
          = length (dropZeros (take k g @ 0 # drop (Suc k) g)) + 1"
    using assms(3) by (simp add: dropZeros_def)
  with a b show ?thesis by simp
qed

lemma emptyCells_none: "0 \<notin> set g \<Longrightarrow> emptyCells g = []"
proof -
  assume nz: "0 \<notin> set g"
  have "i \<notin> set (emptyCells g)" for i
  proof
    assume "i \<in> set (emptyCells g)"
    then have "i < length g" "g ! i = 0" by (simp_all add: emptyCells_iff)
    then have "0 \<in> set g" by (metis nth_mem)
    with nz show False by simp
  qed
  then show ?thesis by (cases "emptyCells g") auto
qed

lemma has_empty_iff: "0 \<in> set g \<longleftrightarrow> length (dropZeros g) < length g"
proof
  assume "0 \<in> set g"
  then show "length (dropZeros g) < length g"
    unfolding dropZeros_def by (intro length_filter_less [of 0]) simp_all
next
  assume "length (dropZeros g) < length g"
  then show "0 \<in> set g" using dropZeros_id [of g] by (cases "0 \<in> set g") auto
qed

lemma count_spawn:
  assumes "validDraw r" and "length g \<le> CELL_COUNT"
  shows "length (dropZeros (addNewTile r g))
           = (if 0 \<in> set g then length (dropZeros g) + 1 else length (dropZeros g))"
proof (cases "0 \<in> set g")
  case True
  from spawn_cell(1) [OF True assms] have "spawnIndex r g < length g" "g ! spawnIndex r g = 0"
    by (simp_all add: emptyCells_iff)
  moreover have "spawnValue r \<noteq> 0" by (simp add: spawnValue_def)
  ultimately show ?thesis
    using True by (simp add: spawn_cell(2) [OF True assms] count_update)
next
  case False
  then show ?thesis by (simp add: addNewTile_def emptyCells_none)
qed

lemma set_addNewTile: "set (addNewTile r g) \<subseteq> insert (spawnValue r) (set g)"
  using set_update_subset_insert [of g "spawnIndex r g" "spawnValue r"]
  by (auto simp: addNewTile_def)

lemma spawn_one_cell:
  assumes "length (grid st) = CELL_COUNT" and "\<not> gameOver st" and "validDraw r"
    and "moveLines d (grid st) = (g', True, points)"
  shows "(\<exists>k<CELL_COUNT. g' ! k = 0 \<and> k = spawnIndex r g'
            \<and> grid (move d r st) = g'[k := spawnValue r])
       \<and> length (filter (\<lambda>v. v \<noteq> 0) (grid (move d r st)))
           = length (filter (\<lambda>v. v \<noteq> 0) g') + 1
       \<and> (spawnValue r = 2 \<or> spawnValue r = 4)"
proof -
  from assms(4) have g': "g' = fst (moveLines d (grid st))"
    and mv: "fst (snd (moveLines d (grid st)))" by simp_all
  have empty: "0 \<in> set g'"
    unfolding g' by (rule moveLines_moved_empty [OF assms(1) mv])
  have len: "length g' = CELL_COUNT"
    unfolding g' by (rule moveLines_length [OF assms(1)])
  then have le: "length g' \<le> CELL_COUNT" by simp
  have new: "grid (move d r st) = addNewTile r g'"
    unfolding g' using move_unfold [OF assms(2) mv] by simp
  from spawn_cell(1) [OF empty assms(3) le]
  have k: "spawnIndex r g' < CELL_COUNT" "g' ! spawnIndex r g' = 0"
    by (simp_all add: emptyCells_iff len)
  have upd: "grid (move d r st) = g'[spawnIndex r g' := spawnValue r]"
    by (simp add: new spawn_cell(2) [OF empty assms(3) le])
  have cnt: "length (filter (\<lambda>v. v \<noteq> 0) (grid (move d r st)))
           = length (filter (\<lambda>v. v \<noteq> 0) g') + 1"
    using count_spawn [OF assms(3) le] empty
    unfolding new dropZeros_def by simp
  from k upd cnt spawnValue_cases [of r] show ?thesis by blast
qed

lemma initializeGrid_two_tiles:
  assumes "validDraw r1" and "validDraw r2"
  shows "length (initializeGrid r1 r2) = CELL_COUNT
       \<and> length (filter (\<lambda>v. v \<noteq> 0) (initializeGrid r1 r2)) = 2
       \<and> (\<forall>c\<in>set (initializeGrid r1 r2). c = 0 \<or> c = 2 \<or> c = 4)"
proof -
  let ?g0 = "replicate CELL_COUNT (0::nat)"
  let ?g1 = "addNewTile r1 ?g0"
  let ?g2 = "addNewTile r2 ?g1"
  have n: "CELL_COUNT = 16" by (simp add: CELL_COUNT_def GRID_SIZE_def)
  have c0: "length (dropZeros ?g0) = 0" by (simp add: dropZeros_def)
  have e0: "0 \<in> set ?g0" by (simp add: n)
  have l1: "length ?g1 = CELL_COUNT" by (simp add: length_addNewTile)
  have c1: "length (dropZeros ?g1) = 1"
    using count_spawn [OF assms(1), of ?g0] e0 c0 by simp
  have e1: "0 \<in> set ?g1"
    unfolding has_empty_iff c1 l1 by (simp add: n)
  have c2: "length (dropZeros ?g2) = 2"
    using count_spawn [OF assms(2), of ?g1] e1 c1 l1 by simp
  have l2: "length ?g2 = CELL_COUNT" by (simp add: length_addNewTile)
  have "set ?g1 \<subseteq> {0, 2, 4}"
    using set_addNewTile [of r1 ?g0] spawnValue_cases [of r1] by auto
  then have "set ?g2 \<subseteq> {0, 2, 4}"
    using set_addNewTile [of r2 ?g1] spawnValue_cases [of r2] by auto
  then have v2: "\<forall>c\<in>set ?g2. c = 0 \<or> c = 2 \<or> c = 4" by auto
  from c2 l2 v2 show ?thesis
    unfolding dropZeros_def initializeGrid_def by blast
qed

subsection \<open>The scan of a line within the pass\<close>

lemma scanLine_getLine:
  "scanLine d g k = (if forward d then getLine (horizontal d) g k
                     else rev (getLine (horizontal d) g k))"
  by (cases d) (simp_all add: scanLine_def getLine_def ixOf_def horizontal_def forward_def)

lemma scanAt_mergedOf:
  "scanAt f i m p \<Longrightarrow>
     m @ mergedOf (drop i f) = mergedOf f \<and> p + pointsOf (drop i f) = pointsOf f"
proof (induction rule: scanAt.induct)
  case (first f)
  show ?case by simp
next
  case (merge f i m p)
  from merge.hyps(3) have "i + 1 < length f" by (simp add: less_diff_conv)
  then have "drop i f = f ! i # f ! (i + 1) # drop (i + 2) f"
    by (simp add: Cons_nth_drop_Suc)
  with merge show ?case by simp
next
  case (keep f i m p)
  show ?case
  proof (cases "i < length f - 1")
    case True
    then have b: "i + 1 < length f" by (simp add: less_diff_conv)
    then have "drop i f = f ! i # f ! (i + 1) # drop (i + 2) f"
      by (simp add: Cons_nth_drop_Suc)
    moreover from b have "drop (i + 1) f = f ! (i + 1) # drop (i + 2) f"
      by (simp add: Cons_nth_drop_Suc)
    ultimately show ?thesis using keep True by simp
  next
    case False
    with keep have "drop i f = [f ! i]" "drop (i + 1) f = []"
      by (simp_all add: Cons_nth_drop_Suc [symmetric])
    with keep show ?thesis by simp
  qed
qed

lemma scanLine_moveLines:
  assumes "length g = CELL_COUNT" and "k < GRID_SIZE"
  shows "scanLine d (fst (moveLines d g)) k = slid (scanLine d g k)"
  by (simp add: scanLine_getLine moveLines_getLine [OF assms] slideLine_def)

lemma slid_padLoop: "slid l = padLoop (mergedOf (dropZeros l))"
  by (simp add: slid_def padLoop_replicate)

lemma linePoints_scanLine:
  "linePoints (forward d) (getLine (horizontal d) g j) = snd (moveRow (scanLine d g j) 0)"
  by (simp add: linePoints_def scanLine_getLine moveRow_slid)

lemma sum_list_without:
  assumes "distinct xs" and "k \<in> set xs"
  shows "sum_list (map f xs) = (f k :: nat) + sum_list (map f (filter (\<lambda>j. j \<noteq> k) xs))"
  using assms
proof (induction xs)
  case Nil
  then show ?case by simp
next
  case (Cons x xs)
  show ?case
  proof (cases "x = k")
    case True
    with Cons.prems have "k \<notin> set xs" by simp
    then have "filter (\<lambda>j. j \<noteq> k) xs = xs" by (induction xs) auto
    with True show ?thesis by simp
  next
    case False
    with Cons show ?thesis by (simp add: ac_simps)
  qed
qed

lemma moveLines_points_without:
  assumes "length g = CELL_COUNT" and "k < GRID_SIZE"
  shows "snd (snd (moveLines d g)) =
           snd (moveRow (scanLine d g k) 0)
           + (\<Sum>j\<leftarrow>filter (\<lambda>j. j \<noteq> k) [0..<GRID_SIZE]. snd (moveRow (scanLine d g j) 0))"
proof -
  have "snd (snd (moveLines d g)) = (\<Sum>j<GRID_SIZE. snd (moveRow (scanLine d g j) 0))"
    by (simp add: moveLines_points [OF assms(1)] linePoints_scanLine)
  also have "\<dots> = (\<Sum>j\<leftarrow>[0..<GRID_SIZE]. snd (moveRow (scanLine d g j) 0))"
    by (simp add: sum_list_distinct_conv_sum_set lessThan_atLeast0)
  also have "\<dots> = snd (moveRow (scanLine d g k) 0)
           + (\<Sum>j\<leftarrow>filter (\<lambda>j. j \<noteq> k) [0..<GRID_SIZE]. snd (moveRow (scanLine d g j) 0))"
    by (rule sum_list_without) (simp_all add: assms(2))
  finally show ?thesis .
qed

section \<open>The properties of the specification\<close>

subsection \<open>The scenario of a move to the right\<close>

text \<open>
  Claim C1, as the code has it. A move to the right on the grid whose first row is
  \<open>[4, 2, 2, 4]\<close> and whose other rows are empty leaves, before the spawn, the row
  \<open>[0, 4, 4, 4]\<close>: the tiles are packed to the right. The move earns 4 points and
  \<open>moved\<close> is true.
\<close>

theorem scenario3_right:
  "moveLines Right [4, 2, 2, 4, 0, 0, 0, 0, 0, 0, 0, 0, 0, 0, 0, 0]
     = ([0, 4, 4, 4, 0, 0, 0, 0, 0, 0, 0, 0, 0, 0, 0, 0], True, 4)"
  by code_simp

text \<open>
  Claim C1 as the specification words it: the row does not become \<open>[4, 4, 4, 0]\<close>.
\<close>

theorem scenario3_counterexample:
  "\<not> (take GRID_SIZE (fst (moveLines Right [4, 2, 2, 4, 0, 0, 0, 0, 0, 0, 0, 0, 0, 0, 0, 0]))
        = [4, 4, 4, 0]
      \<and> snd (snd (moveLines Right [4, 2, 2, 4, 0, 0, 0, 0, 0, 0, 0, 0, 0, 0, 0, 0])) = 4
      \<and> fst (snd (moveLines Right [4, 2, 2, 4, 0, 0, 0, 0, 0, 0, 0, 0, 0, 0, 0, 0])))"
  by code_simp

subsection \<open>Terminal detection\<close>

text \<open>
  Claim C2. On a grid of \<open>CELL_COUNT\<close> cells, \<open>checkGameOver\<close> is true exactly when no
  cell is 0 and no cell equals its right neighbour or the cell below it. Only these
  pairs are looked at: cells that touch by a corner may be equal, as in the grid of the
  example below, where cells 0 and 5 are equal.
\<close>

theorem terminal_iff:
  assumes "length g = CELL_COUNT"
  shows "checkGameOver g \<longleftrightarrow>
     (\<forall>p<CELL_COUNT. g ! p \<noteq> 0)
     \<and> (\<forall>i<GRID_SIZE. \<forall>j<GRID_SIZE.
          (j + 1 < GRID_SIZE \<longrightarrow> g ! (i * GRID_SIZE + j) \<noteq> g ! (i * GRID_SIZE + (j + 1)))
        \<and> (i + 1 < GRID_SIZE \<longrightarrow> g ! (i * GRID_SIZE + j) \<noteq> g ! ((i + 1) * GRID_SIZE + j)))"
proof -
  have "0 \<notin> set g \<longleftrightarrow> (\<forall>p<CELL_COUNT. g ! p \<noteq> 0)"
    using assms by (auto simp: in_set_conv_nth)
  then show ?thesis unfolding checkGameOver_iff by simp
qed

theorem terminal_iff_witness:
  "length [2, 4, 2, 4, 4, 2, 4, 2, 2, 4, 2, 4, 4, 2, 4, 2::nat] = CELL_COUNT
   \<and> checkGameOver [2, 4, 2, 4, 4, 2, 4, 2, 2, 4, 2, 4, 4, 2, 4, 2]
   \<and> [2, 4, 2, 4, 4, 2, 4, 2, 2, 4, 2, 4, 4, 2, 4, 2::nat] ! 0
       = [2, 4, 2, 4, 4, 2, 4, 2, 2, 4, 2, 4, 4, 2, 4, 2] ! 5
   \<and> [2, 4, 2, 4, 4, 2, 4, 2, 2, 4, 2, 4, 4, 2, 4, 2::nat] ! 0
       \<noteq> [2, 4, 2, 4, 4, 2, 4, 2, 2, 4, 2, 4, 4, 2, 4, 2] ! 1"
proof -
  let ?g = "[2, 4, 2, 4, 4, 2, 4, 2, 2, 4, 2, 4, 4, 2, 4, 2::nat]"
  have len: "length ?g = CELL_COUNT" by code_simp
  have over: "checkGameOver ?g" by code_simp
  from terminal_iff [OF len] over
  have "0 + 1 < GRID_SIZE \<longrightarrow> ?g ! (0 * GRID_SIZE + 0) \<noteq> ?g ! (0 * GRID_SIZE + (0 + 1))"
    by (simp add: GRID_SIZE_def)
  then have "?g ! 0 \<noteq> ?g ! 1" by (simp add: GRID_SIZE_def)
  with len over show ?thesis by simp
qed

subsection \<open>Moves that change nothing\<close>

text \<open>
  Claim C3. When the slide and merge pass leaves every cell as it was, \<open>moved\<close> is
  false and the points are 0, and \<open>move\<close> returns the state it was given: the same
  grid, no tile spawned, the same score.
\<close>

theorem noop_move:
  assumes "length (grid st) = CELL_COUNT"
    and "fst (moveLines d (grid st)) = grid st"
  shows "moveLines d (grid st) = (grid st, False, 0) \<and> move d r st = st"
proof -
  from moveLines_unchanged [OF assms] have ml: "moveLines d (grid st) = (grid st, False, 0)" .
  then have "move d r st = st" by (simp add: move_noop)
  with ml show ?thesis by simp
qed

theorem noop_move_witness:
  "length (grid \<lparr>grid = [2, 4, 0, 0, 8, 0, 0, 0, 0, 0, 0, 0, 0, 0, 0, 0],
                 score = 0, bestScore = 0, gameOver = False\<rparr>) = CELL_COUNT
   \<and> moveLines Left [2, 4, 0, 0, 8, 0, 0, 0, 0, 0, 0, 0, 0, 0, 0, 0]
       = ([2, 4, 0, 0, 8, 0, 0, 0, 0, 0, 0, 0, 0, 0, 0, 0], False, 0)
   \<and> move Left \<lparr>cellPick = \<lambda>n. n div 2, smallValue = True\<rparr>
        \<lparr>grid = [2, 4, 0, 0, 8, 0, 0, 0, 0, 0, 0, 0, 0, 0, 0, 0],
         score = 0, bestScore = 0, gameOver = False\<rparr>
       = \<lparr>grid = [2, 4, 0, 0, 8, 0, 0, 0, 0, 0, 0, 0, 0, 0, 0, 0],
          score = 0, bestScore = 0, gameOver = False\<rparr>"
proof -
  let ?st = "\<lparr>grid = [2, 4, 0, 0, 8, 0, 0, 0, 0, 0, 0, 0, 0, 0, 0, 0::nat],
              score = 0, bestScore = 0, gameOver = False\<rparr>"
  have len: "length (grid ?st) = CELL_COUNT" by code_simp
  have same: "fst (moveLines Left (grid ?st)) = grid ?st" by code_simp
  from noop_move [OF len same, where r = "\<lparr>cellPick = \<lambda>n. n div 2, smallValue = True\<rparr>"] len
  show ?thesis by simp
qed

subsection \<open>The merge scan\<close>

text \<open>
  Claim C5. Take line \<open>k\<close> of a move in direction \<open>d\<close>, read from the edge that the
  tiles move to, and let the scan of its non-zero cells stand at index \<open>i\<close>, with the
  tiles \<open>merged\<close> pushed and \<open>pts\<close> points earned in this line so far. When the cells
  \<open>i\<close> and \<open>i + 1\<close> hold the same value \<open>v\<close>, the line of the grid after the pass is
  \<open>merged\<close>, then the one tile \<open>2 * v\<close>, then what the cells from \<open>i + 2\<close> give when
  they are scanned on their own, so that the new tile meets no later tile, all padded
  with zeros. The points of the move are \<open>pts\<close>, plus \<open>2 * v\<close> once, plus the points of
  the cells from \<open>i + 2\<close>, plus the points of the other three lines, and the score
  grows by the points of the move.
\<close>

theorem merge_arithmetic:
  assumes "length (grid st) = CELL_COUNT" and "\<not> gameOver st" and "k < GRID_SIZE"
    and "filtered = filter (\<lambda>val. val \<noteq> 0) (scanLine d (grid st) k)"
    and "scanAt filtered i merged pts"
    and "i + 1 < length filtered" and "filtered ! i = v" and "filtered ! (i + 1) = v"
  shows "scanLine d (fst (moveLines d (grid st))) k
           = padLoop (merged @ 2 * v # fst (mergeLoop (drop (i + 2) filtered) 0 [] 0))
       \<and> snd (snd (moveLines d (grid st)))
           = pts + 2 * v + snd (mergeLoop (drop (i + 2) filtered) 0 [] 0)
             + (\<Sum>j\<leftarrow>filter (\<lambda>j. j \<noteq> k) [0..<GRID_SIZE].
                  snd (moveRow (scanLine d (grid st) j) 0))
       \<and> score (move d r st) = score st + snd (snd (moveLines d (grid st)))"
proof -
  let ?g = "grid st"
  have f: "filtered = dropZeros (scanLine d ?g k)"
    by (simp add: assms(4) dropZeros_def)
  from assms(6,7,8) have d: "drop i filtered = v # v # drop (i + 2) filtered"
    by (simp add: Cons_nth_drop_Suc [symmetric])
  from scanAt_mergedOf [OF assms(5)]
  have a: "mergedOf filtered = merged @ mergedOf (drop i filtered)"
    and b: "pointsOf filtered = pts + pointsOf (drop i filtered)"
    by simp_all
  have m: "mergedOf filtered = merged @ 2 * v # mergedOf (drop (i + 2) filtered)"
    unfolding a d by simp
  have p: "pointsOf filtered = pts + 2 * v + pointsOf (drop (i + 2) filtered)"
    unfolding b d by simp
  have rest: "mergeLoop (drop (i + 2) filtered) 0 [] 0
                = (mergedOf (drop (i + 2) filtered), pointsOf (drop (i + 2) filtered))"
    by (simp add: mergeLoop_drop)
  have line: "scanLine d (fst (moveLines d ?g)) k
           = padLoop (merged @ 2 * v # fst (mergeLoop (drop (i + 2) filtered) 0 [] 0))"
    unfolding scanLine_moveLines [OF assms(1,3)] slid_padLoop f [symmetric] m rest by simp
  have "snd (moveRow (scanLine d ?g k) 0) = pointsOf filtered"
    by (simp add: moveRow_slid gained_def f)
  then have pts: "snd (snd (moveLines d ?g))
           = pts + 2 * v + snd (mergeLoop (drop (i + 2) filtered) 0 [] 0)
             + (\<Sum>j\<leftarrow>filter (\<lambda>j. j \<noteq> k) [0..<GRID_SIZE]. snd (moveRow (scanLine d ?g j) 0))"
    unfolding moveLines_points_without [OF assms(1,3)] p rest by simp
  from assms(6,7) have "v \<in> set filtered" by (metis Suc_eq_plus1 Suc_lessD nth_mem)
  then have "v \<noteq> 0" unfolding f using dropZeros_nonzero [of "scanLine d ?g k"] by metis
  with pts have pos: "snd (snd (moveLines d ?g)) \<noteq> 0" by simp
  have mv: "fst (snd (moveLines d ?g))"
  proof (rule ccontr)
    assume "\<not> fst (snd (moveLines d ?g))"
    then have "fst (moveLines d ?g) = ?g"
      by (simp add: moveLines_moved_iff [OF assms(1)])
    from moveLines_unchanged [OF assms(1) this] pos show False by simp
  qed
  from move_unfold [OF assms(2) mv]
  have "score (move d r st) = score st + snd (snd (moveLines d ?g))" by simp
  with line pts show ?thesis by simp
qed

theorem merge_arithmetic_witness:
  "length (grid \<lparr>grid = [8, 4, 4, 2, 0, 0, 0, 0, 16, 16, 0, 0, 0, 0, 0, 0],
                 score = 0, bestScore = 0, gameOver = False\<rparr>) = CELL_COUNT
   \<and> (0::nat) < GRID_SIZE
   \<and> filter (\<lambda>val. val \<noteq> 0)
        (scanLine Right [8, 4, 4, 2, 0, 0, 0, 0, 16, 16, 0, 0, 0, 0, 0, 0] 0) = [2, 4, 4, 8]
   \<and> scanAt [2, 4, 4, 8] 1 [2] 0
   \<and> moveLines Right [8, 4, 4, 2, 0, 0, 0, 0, 16, 16, 0, 0, 0, 0, 0, 0]
       = ([0, 8, 8, 2, 0, 0, 0, 0, 0, 0, 0, 32, 0, 0, 0, 0], True, 40)
   \<and> scanLine Right (fst (moveLines Right [8, 4, 4, 2, 0, 0, 0, 0, 16, 16, 0, 0, 0, 0, 0, 0])) 0
       = [2, 8, 8, 0]
   \<and> snd (snd (moveLines Right [8, 4, 4, 2, 0, 0, 0, 0, 16, 16, 0, 0, 0, 0, 0, 0]))
       = 0 + 2 * 4 + 0 + 32
   \<and> score (move Right \<lparr>cellPick = \<lambda>n. n div 2, smallValue = True\<rparr>
        \<lparr>grid = [8, 4, 4, 2, 0, 0, 0, 0, 16, 16, 0, 0, 0, 0, 0, 0],
         score = 0, bestScore = 0, gameOver = False\<rparr>) = 40"
proof -
  let ?g = "[8, 4, 4, 2, 0, 0, 0, 0, 16, 16, 0, 0, 0, 0, 0, 0::nat]"
  let ?st = "\<lparr>grid = ?g, score = 0, bestScore = 0, gameOver = False\<rparr>"
  have len: "length (grid ?st) = CELL_COUNT" by code_simp
  have active: "\<not> gameOver ?st" by simp
  have k: "(0::nat) < GRID_SIZE" by code_simp
  have f: "[2, 4, 4, 8] = filter (\<lambda>val. val \<noteq> 0) (scanLine Right (grid ?st) 0)" by code_simp
  have "scanAt [2, 4, 4, 8::nat] (0 + 1) ([] @ [[2, 4, 4, 8] ! 0]) 0"
    by (rule scanAt.keep [OF scanAt.first]) simp_all
  then have at: "scanAt [2, 4, 4, 8::nat] 1 [2] 0" by simp
  have i: "1 + 1 < length [2, 4, 4, 8::nat]" by simp
  have v1: "[2, 4, 4, 8::nat] ! 1 = 4" by simp
  have v2: "[2, 4, 4, 8::nat] ! (1 + 1) = 4" by simp
  have ml: "moveLines Right ?g = ([0, 8, 8, 2, 0, 0, 0, 0, 0, 0, 0, 32, 0, 0, 0, 0], True, 40)"
    by code_simp
  have line: "padLoop ([2] @ 2 * 4 # fst (mergeLoop (drop (1 + 2) [2, 4, 4, 8]) 0 [] 0))
                = [2, 8, 8, 0]" by code_simp
  have rest: "snd (mergeLoop (drop (1 + 2) [2, 4, 4, 8]) 0 [] 0) = 0" by code_simp
  have others: "(\<Sum>j\<leftarrow>filter (\<lambda>j. j \<noteq> 0) [0..<GRID_SIZE].
                    snd (moveRow (scanLine Right (grid ?st) j) 0)) = 32" by code_simp
  from merge_arithmetic [OF len active k f at i v1 v2,
      of "\<lparr>cellPick = \<lambda>n. n div 2, smallValue = True\<rparr>"]
  show ?thesis unfolding line rest others using len k f [symmetric] at ml by simp
qed

subsection \<open>The grids of a game\<close>

text \<open>
  Claim C6. In every state that a game reaches from the initial grid by moves (and by
  new games), the grid has \<open>CELL_COUNT\<close> cells and every cell is 0 or a power of two
  that is at least 2.
\<close>

theorem reachable_invariant:
  assumes "reachable st"
  shows "length (grid st) = CELL_COUNT
       \<and> (\<forall>c\<in>set (grid st). c = 0 \<or> (\<exists>k. 1 \<le> k \<and> c = 2 ^ k))"
proof -
  let ?P = "\<lambda>c::nat. c = 0 \<or> (\<exists>k. 1 \<le> k \<and> c = 2 ^ k)"
  have dbl: "?P (x * 2)" if "?P x" for x
  proof -
    from that consider "x = 0" | k where "1 \<le> k" "x = 2 ^ k" by blast
    then show ?thesis
    proof cases
      case 1
      then show ?thesis by simp
    next
      case 2
      then have "1 \<le> Suc k \<and> x * 2 = 2 ^ Suc k" by simp
      then show ?thesis by blast
    qed
  qed
  have two: "?P 2" by (rule disjI2, rule exI [of _ 1]) simp
  have four: "?P 4" by (rule disjI2, rule exI [of _ 2]) simp
  have spawnP: "?P (spawnValue r)" for r
    using spawnValue_cases [of r] two four by metis
  have spawn: "\<forall>c\<in>set (addNewTile r g). ?P c" if "\<forall>c\<in>set g. ?P c" for r g
    using that set_addNewTile [of r g] spawnP [of r] by blast
  have init: "length (initializeGrid r1 r2) = CELL_COUNT
       \<and> (\<forall>c\<in>set (initializeGrid r1 r2). ?P c)" for r1 r2
  proof -
    have "\<forall>c\<in>set (replicate CELL_COUNT (0::nat)). ?P c" by simp
    then have "\<forall>c\<in>set (addNewTile r2 (addNewTile r1 (replicate CELL_COUNT 0))). ?P c"
      by (intro spawn)
    then show ?thesis by (simp add: initializeGrid_def length_addNewTile)
  qed
  from assms show ?thesis
  proof (induction rule: reachable.induct)
    case (start r1 r2 b)
    from init [of r1 r2] show ?case by simp
  next
    case (moved st r direction)
    then have len: "length (grid st) = CELL_COUNT" and vals: "\<forall>c\<in>set (grid st). ?P c"
      by blast+
    show ?case
    proof (cases "\<not> gameOver st \<and> fst (snd (moveLines direction (grid st)))")
      case True
      then have new: "grid (move direction r st)
                        = addNewTile r (fst (moveLines direction (grid st)))"
        using move_unfold [of st direction r] by simp
      have "\<forall>c\<in>set (fst (moveLines direction (grid st))). ?P c"
        by (rule moveLines_all [OF len dbl _ vals]) simp_all
      then have "\<forall>c\<in>set (addNewTile r (fst (moveLines direction (grid st)))). ?P c"
        by (intro spawn)
      then show ?thesis
        unfolding new by (simp add: length_addNewTile moveLines_length [OF len])
    next
      case False
      then have "gameOver st \<or> \<not> fst (snd (moveLines direction (grid st)))" by blast
      then have "move direction r st = st"
      proof
        assume "gameOver st"
        then show ?thesis by (simp add: move_def)
      next
        assume "\<not> fst (snd (moveLines direction (grid st)))"
        then show ?thesis by (rule move_noop)
      qed
      with len vals show ?thesis by simp
    qed
  next
    case (again st r1 r2)
    from init [of r1 r2] show ?case by (simp add: newGame_def)
  qed
qed

theorem reachable_invariant_witness:
  "reachable (move Up \<lparr>cellPick = \<lambda>n. n div 2, smallValue = True\<rparr>
      \<lparr>grid = initializeGrid \<lparr>cellPick = \<lambda>n. 0, smallValue = True\<rparr>
                \<lparr>cellPick = \<lambda>n. n div 2, smallValue = False\<rparr>,
       score = 0, bestScore = 0, gameOver = False\<rparr>)
   \<and> length (grid (move Up \<lparr>cellPick = \<lambda>n. n div 2, smallValue = True\<rparr>
      \<lparr>grid = initializeGrid \<lparr>cellPick = \<lambda>n. 0, smallValue = True\<rparr>
                \<lparr>cellPick = \<lambda>n. n div 2, smallValue = False\<rparr>,
       score = 0, bestScore = 0, gameOver = False\<rparr>)) = CELL_COUNT"
proof -
  have d1: "validDraw \<lparr>cellPick = \<lambda>n. 0, smallValue = True\<rparr>" by code_simp
  have d2: "validDraw \<lparr>cellPick = \<lambda>n. n div 2, smallValue = False\<rparr>" by code_simp
  have d3: "validDraw \<lparr>cellPick = \<lambda>n. n div 2, smallValue = True\<rparr>" by code_simp
  have r: "reachable (move Up \<lparr>cellPick = \<lambda>n. n div 2, smallValue = True\<rparr>
      \<lparr>grid = initializeGrid \<lparr>cellPick = \<lambda>n. 0, smallValue = True\<rparr>
                \<lparr>cellPick = \<lambda>n. n div 2, smallValue = False\<rparr>,
       score = 0, bestScore = 0, gameOver = False\<rparr>)"
    by (rule reachable.moved [OF reachable.start [OF d1 d2] d3])
  from reachable_invariant [OF r] r show ?thesis by blast
qed

subsection \<open>Moves that only slide\<close>

text \<open>
  Claim C7. When a move changes the grid and earns no point, the grid before the spawn
  holds the same non-zero values as the grid before the move, each as often.
\<close>

theorem slide_only_conservation:
  assumes "length g = CELL_COUNT"
    and "moveLines d g = (g', True, 0)"
  shows "mset (filter (\<lambda>v. v \<noteq> 0) g') = mset (filter (\<lambda>v. v \<noteq> 0) g)"
  using moveLines_slide_only [OF assms(1), of d] assms(2)
  unfolding dropZeros_def by simp

theorem slide_only_conservation_witness:
  "length [0, 2, 0, 4, 0, 0, 0, 0, 0, 0, 0, 0, 0, 0, 0, 8::nat] = CELL_COUNT
   \<and> moveLines Left [0, 2, 0, 4, 0, 0, 0, 0, 0, 0, 0, 0, 0, 0, 0, 8]
       = ([2, 4, 0, 0, 0, 0, 0, 0, 0, 0, 0, 0, 8, 0, 0, 0], True, 0)
   \<and> mset (filter (\<lambda>v. v \<noteq> 0) [2, 4, 0, 0, 0, 0, 0, 0, 0, 0, 0, 0, 8, 0, 0, 0::nat])
       = mset (filter (\<lambda>v. v \<noteq> 0) [0, 2, 0, 4, 0, 0, 0, 0, 0, 0, 0, 0, 0, 0, 0, 8])"
proof -
  have len: "length [0, 2, 0, 4, 0, 0, 0, 0, 0, 0, 0, 0, 0, 0, 0, 8::nat] = CELL_COUNT"
    by code_simp
  have ml: "moveLines Left [0, 2, 0, 4, 0, 0, 0, 0, 0, 0, 0, 0, 0, 0, 0, 8]
              = ([2, 4, 0, 0, 0, 0, 0, 0, 0, 0, 0, 0, 8, 0, 0, 0], True, 0)"
    by code_simp
  from slide_only_conservation [OF len ml] len ml show ?thesis by blast
qed

subsection \<open>A terminal grid stays as it is\<close>

text \<open>
  Claim C9. On a grid of \<open>CELL_COUNT\<close> cells for which \<open>checkGameOver\<close> holds, the
  pass changes no cell in any of the four directions, with \<open>moved\<close> false and no
  points, and \<open>move\<close> returns the state it was given, whether the flag \<open>gameOver\<close> is
  set or not.
\<close>

theorem terminal_absorbing:
  assumes "length (grid st) = CELL_COUNT" and "checkGameOver (grid st)"
  shows "moveLines d (grid st) = (grid st, False, 0) \<and> move d r st = st"
proof -
  from terminal_unchanged [OF assms] have ml: "moveLines d (grid st) = (grid st, False, 0)" .
  then have "move d r st = st" by (simp add: move_noop)
  with ml show ?thesis by simp
qed

theorem terminal_absorbing_witness:
  "length (grid \<lparr>grid = [2, 4, 2, 4, 4, 2, 4, 2, 2, 4, 2, 4, 4, 2, 4, 2],
                 score = 20, bestScore = 20, gameOver = False\<rparr>) = CELL_COUNT
   \<and> checkGameOver [2, 4, 2, 4, 4, 2, 4, 2, 2, 4, 2, 4, 4, 2, 4, 2]
   \<and> move Up \<lparr>cellPick = \<lambda>n. n div 2, smallValue = True\<rparr>
        \<lparr>grid = [2, 4, 2, 4, 4, 2, 4, 2, 2, 4, 2, 4, 4, 2, 4, 2],
         score = 20, bestScore = 20, gameOver = False\<rparr>
       = \<lparr>grid = [2, 4, 2, 4, 4, 2, 4, 2, 2, 4, 2, 4, 4, 2, 4, 2],
          score = 20, bestScore = 20, gameOver = False\<rparr>"
proof -
  let ?st = "\<lparr>grid = [2, 4, 2, 4, 4, 2, 4, 2, 2, 4, 2, 4, 4, 2, 4, 2::nat],
              score = 20, bestScore = 20, gameOver = False\<rparr>"
  have len: "length (grid ?st) = CELL_COUNT" by code_simp
  have over: "checkGameOver (grid ?st)" by code_simp
  from terminal_absorbing [OF len over, of Up "\<lparr>cellPick = \<lambda>n. n div 2, smallValue = True\<rparr>"]
    len over
  show ?thesis by simp
qed

subsection \<open>The total of the cells\<close>

text \<open>
  Claim C10. The slide and merge pass keeps the sum of the cells. When \<open>moved\<close> is
  true the grid after the move sums to the old total plus the spawned value, which is
  2 or 4; when \<open>moved\<close> is false the total is the old one. The game is taken not to be
  over, since \<open>move\<close> does nothing at all when \<open>gameOver\<close> is set.
\<close>

theorem total_preserved:
  assumes "length (grid st) = CELL_COUNT" and "validDraw r" and "\<not> gameOver st"
  shows "sum_list (fst (moveLines d (grid st))) = sum_list (grid st)
       \<and> (fst (snd (moveLines d (grid st))) \<longrightarrow>
            sum_list (grid (move d r st)) = sum_list (grid st) + spawnValue r
            \<and> (spawnValue r = 2 \<or> spawnValue r = 4))
       \<and> (\<not> fst (snd (moveLines d (grid st))) \<longrightarrow>
            sum_list (grid (move d r st)) = sum_list (grid st))"
proof (intro conjI impI)
  show "sum_list (fst (moveLines d (grid st))) = sum_list (grid st)"
    by (rule moveLines_sum [OF assms(1)])
next
  assume m: "fst (snd (moveLines d (grid st)))"
  have "0 \<in> set (fst (moveLines d (grid st)))"
    by (rule moveLines_moved_empty [OF assms(1) m])
  then have "sum_list (addNewTile r (fst (moveLines d (grid st))))
               = sum_list (fst (moveLines d (grid st))) + spawnValue r"
    by (rule sum_list_spawn [OF _ assms(2)]) (simp add: moveLines_length [OF assms(1)])
  then show "sum_list (grid (move d r st)) = sum_list (grid st) + spawnValue r"
    by (simp add: move_unfold [OF assms(3) m] moveLines_sum [OF assms(1)])
next
  show "spawnValue r = 2 \<or> spawnValue r = 4" by (rule spawnValue_cases)
next
  assume "\<not> fst (snd (moveLines d (grid st)))"
  then show "sum_list (grid (move d r st)) = sum_list (grid st)"
    by (simp add: move_noop)
qed

theorem total_preserved_witness:
  "length (grid \<lparr>grid = [2, 2, 0, 0, 0, 0, 0, 0, 0, 0, 0, 0, 0, 0, 0, 0],
                 score = 0, bestScore = 0, gameOver = False\<rparr>) = CELL_COUNT
   \<and> validDraw \<lparr>cellPick = \<lambda>n. n div 2, smallValue = True\<rparr>
   \<and> fst (snd (moveLines Left [2, 2, 0, 0, 0, 0, 0, 0, 0, 0, 0, 0, 0, 0, 0, 0]))
   \<and> sum_list (fst (moveLines Left [2, 2, 0, 0, 0, 0, 0, 0, 0, 0, 0, 0, 0, 0, 0, 0])) = 4
   \<and> sum_list (grid (move Left \<lparr>cellPick = \<lambda>n. n div 2, smallValue = True\<rparr>
        \<lparr>grid = [2, 2, 0, 0, 0, 0, 0, 0, 0, 0, 0, 0, 0, 0, 0, 0],
         score = 0, bestScore = 0, gameOver = False\<rparr>)) = 6"
proof -
  let ?st = "\<lparr>grid = [2, 2, 0, 0, 0, 0, 0, 0, 0, 0, 0, 0, 0, 0, 0, 0::nat],
              score = 0, bestScore = 0, gameOver = False\<rparr>"
  let ?r = "\<lparr>cellPick = \<lambda>n. n div 2, smallValue = True\<rparr>"
  have len: "length (grid ?st) = CELL_COUNT" by code_simp
  have draw: "validDraw ?r" by code_simp
  have active: "\<not> gameOver ?st" by simp
  have mv: "fst (snd (moveLines Left (grid ?st)))" by code_simp
  have v: "spawnValue ?r = 2" by (simp add: spawnValue_def)
  from total_preserved [OF len draw active, of Left] mv v len draw
  show ?thesis by simp
qed

end
